theory Spec2Isabelle
  imports Main "HOL-Library.Word"
begin

unbundle bit_operations_syntax

section \<open>Data model\<close>

text \<open>
  The card memory and record payloads are Node \<open>Buffer\<close>s: sequences of bytes.
  JavaScript strings are sequences of UTF-16 code units.
\<close>

type_synonym byte = "8 word"
type_synonym js_string = "16 word list"

definition js_str :: "string \<Rightarrow> js_string" where
  "js_str s = map (\<lambda>c. of_char c) s"

subsection \<open>Buffer primitives\<close>

text \<open>
  \<open>buf[i]\<close> on a Buffer yields \<open>undefined\<close> (here \<open>None\<close>) when \<open>i\<close> is not an
  index of the buffer; it never throws.
\<close>

definition buf_at :: "byte list \<Rightarrow> nat \<Rightarrow> byte option" where
  "buf_at buf i = (if i < length buf then Some (buf ! i) else None)"

text \<open>
  The numbers that reach \<open>Buffer.slice\<close> in this program are sums of non-negative
  integers, or \<open>NaN\<close> when a summand is \<open>undefined\<close>. They are modelled as
  \<open>nat option\<close> with \<open>None\<close> for \<open>NaN\<close>.
\<close>

definition js_add_undef :: "nat \<Rightarrow> byte option \<Rightarrow> nat option" where
  "js_add_undef n v = (case v of None \<Rightarrow> None | Some b \<Rightarrow> Some (n + unat b))"

text \<open>
  Node's \<open>Buffer.prototype.slice(start, end)\<close>: both offsets are clamped into
  \<open>[0, length]\<close>, \<open>NaN\<close> counts as 0, and the result is empty when the clamped
  end is not beyond the clamped start.
\<close>

definition adjustOffset :: "nat option \<Rightarrow> nat \<Rightarrow> nat" where
  "adjustOffset offset len =
     (case offset of
        None \<Rightarrow> 0
      | Some n \<Rightarrow> if n < len then n else len)"

definition buffer_slice :: "byte list \<Rightarrow> nat option \<Rightarrow> nat option \<Rightarrow> byte list" where
  "buffer_slice buf start end =
     (let srcLength = length buf;
          s = adjustOffset start srcLength;
          e = adjustOffset end srcLength;
          newLength = (if e > s then e - s else 0)
      in take newLength (drop s buf))"

section \<open>TLV scanner: findNdefMessage\<close>

definition ndefTlv :: byte where
  "ndefTlv = 0x03"

definition terminatorTlv :: byte where
  "terminatorTlv = 0xFE"

function findNdefMessage_loop :: "byte list \<Rightarrow> nat \<Rightarrow> byte list option" where
  "findNdefMessage_loop data offset =
     (if offset < length data then
        (let type = data ! offset in
         if type = ndefTlv then
           (let length = buf_at data (offset + 1);
                value = buffer_slice data (Some (offset + 2)) (js_add_undef (offset + 2) length)
            in Some value)
         else if type = terminatorTlv then None
         else findNdefMessage_loop data (offset + 1))
      else None)"
  by pat_completeness auto
termination
  by (relation "measure (\<lambda>(data, offset). length data - offset)") auto

declare findNdefMessage_loop.simps [simp del]

definition findNdefMessage :: "byte list \<Rightarrow> byte list option" where
  "findNdefMessage data = findNdefMessage_loop data 0"

section \<open>URI prefix table\<close>

text \<open>
  The object literal \<open>URI_PREFIXES\<close> of the source, keyed by prefix code, in source order.
\<close>

definition URI_PREFIXES :: "(nat \<times> js_string) list" where
  "URI_PREFIXES =
    [(0x00, js_str ''''),
     (0x01, js_str ''http://www.''),
     (0x02, js_str ''https://www.''),
     (0x03, js_str ''http://''),
     (0x04, js_str ''https://''),
     (0x05, js_str ''tel:''),
     (0x06, js_str ''mailto:''),
     (0x07, js_str ''ftp://anonymous:anonymous@''),
     (0x08, js_str ''ftp://ftp.''),
     (0x09, js_str ''ftps://''),
     (0x0A, js_str ''sftp://''),
     (0x0B, js_str ''smb://''),
     (0x0C, js_str ''nfs://''),
     (0x0D, js_str ''ftp://''),
     (0x0E, js_str ''dav://''),
     (0x0F, js_str ''news:''),
     (0x10, js_str ''telnet://''),
     (0x11, js_str ''imap:''),
     (0x12, js_str ''rtsp://''),
     (0x13, js_str ''urn:''),
     (0x14, js_str ''pop:''),
     (0x15, js_str ''sip:''),
     (0x16, js_str ''sips:''),
     (0x17, js_str ''tftp:''),
     (0x18, js_str ''btspp://''),
     (0x19, js_str ''btl2cap://''),
     (0x1A, js_str ''btgoep://''),
     (0x1B, js_str ''tcpobex://''),
     (0x1C, js_str ''irdaobex://''),
     (0x1D, js_str ''file://''),
     (0x1E, js_str ''urn:epc:id:''),
     (0x1F, js_str ''urn:epc:tag:''),
     (0x20, js_str ''urn:epc:pat:''),
     (0x21, js_str ''urn:epc:raw:''),
     (0x22, js_str ''urn:epc:''),
     (0x23, js_str ''urn:nfc:'')]"

text \<open>
  \<open>v || ''\<close> where \<open>v\<close> is a string or \<open>undefined\<close>: \<open>undefined\<close> and the empty
  string are falsy and give the right operand.
\<close>

definition or_empty :: "js_string option \<Rightarrow> js_string" where
  "or_empty v = (case v of None \<Rightarrow> [] | Some s \<Rightarrow> if s = [] then [] else s)"

section \<open>URI record resolver: parseUriRecord\<close>

subsection \<open>Buffer and string primitives used by the resolver\<close>

text \<open>\<open>buf.slice(start)\<close>: the end defaults to the length of the buffer.\<close>

definition buffer_slice_from :: "byte list \<Rightarrow> nat option \<Rightarrow> byte list" where
  "buffer_slice_from buf start =
     (let srcLength = length buf;
          s = adjustOffset start srcLength;
          e = srcLength;
          newLength = (if e > s then e - s else 0)
      in take newLength (drop s buf))"

definition hex_digit :: "nat \<Rightarrow> 16 word" where
  "hex_digit d = js_str ''0123456789abcdef'' ! d"

text \<open>\<open>n.toString(16)\<close> for a non-negative integer.\<close>

fun toString16 :: "nat \<Rightarrow> js_string" where
  "toString16 n = (if n < 16 then [hex_digit n] else toString16 (n div 16) @ [hex_digit (n mod 16)])"

declare toString16.simps [simp del]

definition padStart :: "js_string \<Rightarrow> nat \<Rightarrow> js_string \<Rightarrow> js_string" where
  "padStart s targetLength padString =
     (if targetLength \<le> length s \<or> padString = [] then s
      else take (targetLength - length s)
             (concat (replicate (targetLength - length s) padString)) @ s)"

text \<open>\<open>buf.toString('hex')\<close>: two lower-case digits per byte.\<close>

definition buffer_toString_hex :: "byte list \<Rightarrow> js_string" where
  "buffer_toString_hex buf =
     concat (map (\<lambda>b. [hex_digit (unat b div 16), hex_digit (unat b mod 16)]) buf)"

text \<open>
  \<open>buf.toString('utf8')\<close>: the UTF-8 decoder with replacement. A byte that cannot
  start or continue a sequence yields U+FFFD; a byte that breaks a sequence is looked
  at again as the start of the next one. The arguments are the number of continuation
  bytes still needed, the code point collected so far and the bounds for the next
  continuation byte. The result is the list of code points.
\<close>

function utf8_decode :: "nat \<Rightarrow> nat \<Rightarrow> byte \<Rightarrow> byte \<Rightarrow> byte list \<Rightarrow> nat list" where
  "utf8_decode needed cp lower upper [] = (if needed \<noteq> 0 then [0xFFFD] else [])"
| "utf8_decode needed cp lower upper (b # bs) =
     (if needed = 0 then
        (if b \<le> 0x7F then unat b # utf8_decode 0 0 0x80 0xBF bs
         else if 0xC2 \<le> b \<and> b \<le> 0xDF then
           utf8_decode 1 (unat (b AND 0x1F)) 0x80 0xBF bs
         else if 0xE0 \<le> b \<and> b \<le> 0xEF then
           utf8_decode 2 (unat (b AND 0x0F))
             (if b = 0xE0 then 0xA0 else 0x80) (if b = 0xED then 0x9F else 0xBF) bs
         else if 0xF0 \<le> b \<and> b \<le> 0xF4 then
           utf8_decode 3 (unat (b AND 0x07))
             (if b = 0xF0 then 0x90 else 0x80) (if b = 0xF4 then 0x8F else 0xBF) bs
         else 0xFFFD # utf8_decode 0 0 0x80 0xBF bs)
      else if \<not> (lower \<le> b \<and> b \<le> upper) then
        0xFFFD # utf8_decode 0 0 0x80 0xBF (b # bs)
      else
        (let cp' = cp * 64 + unat (b AND 0x3F) in
         if needed = 1 then cp' # utf8_decode 0 0 0x80 0xBF bs
         else utf8_decode (needed - 1) cp' 0x80 0xBF bs))"
  by pat_completeness auto
termination
  by (relation "measure (\<lambda>(needed, cp, lower, upper, bs).
        2 * length bs + (if needed = 0 then 0 else 1))") auto

text \<open>A code point as UTF-16 code units: itself, or a surrogate pair.\<close>

definition utf16_units :: "nat \<Rightarrow> js_string" where
  "utf16_units cp =
     (if cp < 0x10000 then [of_nat cp]
      else [of_nat (0xD800 + (cp - 0x10000) div 0x400),
            of_nat (0xDC00 + (cp - 0x10000) mod 0x400)])"

definition buffer_toString_utf8 :: "byte list \<Rightarrow> js_string" where
  "buffer_toString_utf8 buf = concat (map utf16_units (utf8_decode 0 0 0x80 0xBF buf))"

subsection \<open>The console\<close>

text \<open>
  \<open>console.log\<close> is the only effect of the resolver. The console is the list of
  lines written so far; the arguments of one call are joined by a space.
\<close>

type_synonym console = "js_string list"

fun join_with :: "js_string \<Rightarrow> js_string list \<Rightarrow> js_string" where
  "join_with sep [] = []"
| "join_with sep [s] = s"
| "join_with sep (s # t # ss) = s @ sep @ join_with sep (t # ss)"

definition console_log :: "js_string list \<Rightarrow> console \<Rightarrow> console" where
  "console_log args con = con @ [join_with (js_str '' '') args]"

subsection \<open>parseUriRecord\<close>

record uri_raw =
  raw_prefixCode :: byte
  raw_uriData :: js_string

record uri_record =
  prefixCode :: byte
  prefix :: js_string
  uri :: js_string
  fullUri :: js_string
  raw :: uri_raw

definition parseUriRecord :: "byte list \<Rightarrow> console \<Rightarrow> uri_record option \<times> console" where
  "parseUriRecord data con =
     (if length data < 2 then (None, con)
      else
        (let prefixCode = data ! 0;
             con1 = console_log [js_str ''URI prefix code:'',
                      padStart (toString16 (unat prefixCode)) 2 (js_str ''0'')] con;
             uriData = buffer_slice_from data (Some 1);
             con2 = console_log [js_str ''URI data hex:'', buffer_toString_hex uriData] con1;
             prefix = or_empty (map_of URI_PREFIXES (unat prefixCode));
             uri = buffer_toString_utf8 uriData
         in (Some \<lparr> prefixCode = prefixCode,
                     prefix = prefix,
                     uri = uri,
                     fullUri = prefix @ uri,
                     raw = \<lparr> raw_prefixCode = prefixCode,
                             raw_uriData = buffer_toString_hex uriData \<rparr> \<rparr>,
             con2)))"

section \<open>Legacy decoder: decodePayload\<close>

subsection \<open>Numbers and string primitives used by the legacy decoder\<close>

text \<open>
  The numbers that \<open>parseInt\<close> can return: \<open>NaN\<close>, the infinities, and the
  integers that are doubles. (\<open>parseInt\<close> can also return \<open>-0\<close>; a property key
  and \<open>String.fromCharCode\<close> do not tell it from \<open>0\<close>, so \<open>Num 0\<close> stands for both.)
\<close>

datatype js_number = NaN | PosInfinity | NegInfinity | Num int

text \<open>White space and line terminators, as \<open>trim\<close> and \<open>parseInt\<close> strip them.\<close>

definition is_whitespace :: "16 word \<Rightarrow> bool" where
  "is_whitespace c \<longleftrightarrow>
     c \<in> set [0x0009, 0x000A, 0x000B, 0x000C, 0x000D, 0x0020, 0x00A0, 0x1680,
              0x2000, 0x2001, 0x2002, 0x2003, 0x2004, 0x2005, 0x2006, 0x2007,
              0x2008, 0x2009, 0x200A, 0x2028, 0x2029, 0x202F, 0x205F, 0x3000, 0xFEFF]"

definition trim :: "js_string \<Rightarrow> js_string" where
  "trim s = rev (dropWhile is_whitespace (rev (dropWhile is_whitespace s)))"

text \<open>\<open>s.split(sep)\<close> for a separator of one code unit; never the empty array.\<close>

fun split_on :: "16 word \<Rightarrow> js_string \<Rightarrow> js_string list" where
  "split_on sep [] = [[]]"
| "split_on sep (c # cs) =
     (if c = sep then [] # split_on sep cs
      else (case split_on sep cs of
              [] \<Rightarrow> [[c]]
            | p # ps \<Rightarrow> (c # p) # ps))"

definition is_digit :: "16 word \<Rightarrow> bool" where
  "is_digit c \<longleftrightarrow> 0x30 \<le> c \<and> c \<le> 0x39"

definition digit_value :: "16 word \<Rightarrow> nat" where
  "digit_value c = unat c - 0x30"

fun bit_length :: "nat \<Rightarrow> nat" where
  "bit_length n = (if n = 0 then 0 else Suc (bit_length (n div 2)))"

declare bit_length.simps [simp del]

text \<open>
  The double nearest to a natural number (ties to even), \<open>None\<close> when it is beyond
  the largest double. Every natural number below \<open>2 ^ 53\<close> is a double.
\<close>

definition round_to_double :: "nat \<Rightarrow> nat option" where
  "round_to_double n =
     (if n < 2 ^ 53 then Some n
      else
        (let e = bit_length n - 53;
             q = n div 2 ^ e;
             r = n mod 2 ^ e;
             half = 2 ^ (e - 1);
             q' = (if half < r \<or> (r = half \<and> odd q) then q + 1 else q);
             v = q' * 2 ^ e
         in if 2 ^ 1024 \<le> v then None else Some v))"

text \<open>
  \<open>parseInt(string, 10)\<close>: leading white space is skipped, one sign is read, then
  the longest run of decimal digits; no digit gives \<open>NaN\<close>, and what follows the
  digits is ignored. The value of the digits is rounded to a double.
\<close>

definition parseInt10 :: "js_string \<Rightarrow> js_number" where
  "parseInt10 string =
     (let S = dropWhile is_whitespace string;
          neg = (S \<noteq> [] \<and> hd S = 0x2D);
          S' = (if S \<noteq> [] \<and> (hd S = 0x2B \<or> hd S = 0x2D) then tl S else S);
          Z = takeWhile is_digit S'
      in if Z = [] then NaN
         else
           (case round_to_double (foldl (\<lambda>acc c. acc * 10 + digit_value c) 0 Z) of
              None \<Rightarrow> if neg then NegInfinity else PosInfinity
            | Some m \<Rightarrow> Num (if neg then - int m else int m)))"

text \<open>
  \<open>URI_PREFIXES[v]\<close> for a number \<open>v\<close>: the key is the number printed, which is one
  of the keys of the table only for an integer from 0 to 35.
\<close>

definition URI_PREFIXES_at :: "js_number \<Rightarrow> js_string option" where
  "URI_PREFIXES_at v =
     (case v of
        Num i \<Rightarrow> if 0 \<le> i then map_of URI_PREFIXES (nat i) else None
      | _ \<Rightarrow> None)"

text \<open>
  \<open>String.fromCharCode(v)\<close>: one code unit, the number modulo \<open>2 ^ 16\<close>, and 0 for
  \<open>NaN\<close> and the infinities.
\<close>

definition fromCharCode :: "js_number \<Rightarrow> js_string" where
  "fromCharCode v = (case v of Num i \<Rightarrow> [word_of_int i] | _ \<Rightarrow> [0])"

subsection \<open>decodePayload\<close>

definition decodePayload :: "js_string \<Rightarrow> js_string" where
  "decodePayload payload =
     (let numbers = map (\<lambda>num. parseInt10 (trim num)) (split_on 0x2C payload);
          prefix = or_empty (case numbers of [] \<Rightarrow> None
                                           | n # _ \<Rightarrow> URI_PREFIXES_at n);
          chars = map fromCharCode (drop 1 numbers)
      in prefix @ concat chars)"

text \<open>
  The caller passes \<open>record.getPayload().toString()\<close>: the bytes of the payload
  printed in decimal (\<open>toString10\<close>, the digits of a non-negative integer) and joined
  by commas.
\<close>

definition digit_unit :: "nat \<Rightarrow> 16 word" where
  "digit_unit d = of_nat (0x30 + d)"

fun toString10 :: "nat \<Rightarrow> js_string" where
  "toString10 n =
     (if n < 10 then [digit_unit n]
      else toString10 (n div 10) @ [digit_unit (n mod 10)])"

declare toString10.simps [simp del]

definition codes_toString :: "nat list \<Rightarrow> js_string" where
  "codes_toString codes = join_with (js_str '','') (map toString10 codes)"

section \<open>Predicates of the specification\<close>

text \<open>
  The scanner reaches a 0x03 tag at \<open>offset\<close>: the byte there is 0x03 and no byte
  before it is 0x03 or 0xFE.
\<close>

definition first_ndef_at :: "byte list \<Rightarrow> nat \<Rightarrow> bool" where
  "first_ndef_at data offset \<longleftrightarrow>
     offset < length data \<and> data ! offset = 0x03 \<and>
     list_all (\<lambda>b. b \<noteq> 0x03 \<and> b \<noteq> 0xFE) (take offset data)"

text \<open>
  The canonical table that the specification refers to: the URI prefixes of the NFC
  Forum URI Record Type Definition, by prefix code (36 entries, codes 0x00 to 0x23).
  It is written down independently of \<open>URI_PREFIXES\<close> and compared with it.
\<close>

definition nfc_forum_uri_prefixes :: "string list" where
  "nfc_forum_uri_prefixes =
     ['''', ''http://www.'', ''https://www.'', ''http://'', ''https://'', ''tel:'',
      ''mailto:'', ''ftp://anonymous:anonymous@'', ''ftp://ftp.'', ''ftps://'',
      ''sftp://'', ''smb://'', ''nfs://'', ''ftp://'', ''dav://'', ''news:'',
      ''telnet://'', ''imap:'', ''rtsp://'', ''urn:'', ''pop:'', ''sip:'', ''sips:'',
      ''tftp:'', ''btspp://'', ''btl2cap://'', ''btgoep://'', ''tcpobex://'',
      ''irdaobex://'', ''file://'', ''urn:epc:id:'', ''urn:epc:tag:'', ''urn:epc:pat:'',
      ''urn:epc:raw:'', ''urn:epc:'', ''urn:nfc:'']"

section \<open>Properties of the TLV scanner\<close>

subsection \<open>The loop\<close>

lemma first_ndef_at_nth:
  "first_ndef_at data offset \<longleftrightarrow>
     offset < length data \<and> data ! offset = 0x03 \<and>
     (\<forall>i<offset. data ! i \<noteq> 0x03 \<and> data ! i \<noteq> 0xFE)"
  by (auto simp: first_ndef_at_def list_all_length)

lemma loop_skip:
  assumes "i < length data" "data ! i \<noteq> 0x03" "data ! i \<noteq> 0xFE"
  shows "findNdefMessage_loop data i = findNdefMessage_loop data (i + 1)"
  using assms
  by (subst findNdefMessage_loop.simps) (simp add: Let_def ndefTlv_def terminatorTlv_def)

lemma loop_skip_many:
  assumes "k \<le> length data" "\<forall>i<k. data ! i \<noteq> 0x03 \<and> data ! i \<noteq> 0xFE" "j \<le> k"
  shows "findNdefMessage_loop data (k - j) = findNdefMessage_loop data k"
  using assms(3)
proof (induction j)
  case 0
  then show ?case by simp
next
  case (Suc j)
  then have lt: "k - Suc j < k" by simp
  have "findNdefMessage_loop data (k - Suc j) = findNdefMessage_loop data (k - Suc j + 1)"
    using lt assms(1,2) by (intro loop_skip) auto
  also have "k - Suc j + 1 = k - j" using Suc.prems by simp
  finally show ?case using Suc by simp
qed

lemma loop_at_ndef:
  assumes "offset < length data" "data ! offset = 0x03"
  shows "findNdefMessage_loop data offset =
    Some (buffer_slice data (Some (offset + 2))
            (js_add_undef (offset + 2) (buf_at data (offset + 1))))"
  using assms
  by (subst findNdefMessage_loop.simps) (simp add: Let_def ndefTlv_def)

lemma find_first_ndef:
  assumes "first_ndef_at data offset"
  shows "findNdefMessage data =
    Some (buffer_slice data (Some (offset + 2))
            (js_add_undef (offset + 2) (buf_at data (offset + 1))))"
proof -
  have "findNdefMessage_loop data (offset - offset) = findNdefMessage_loop data offset"
    using assms by (intro loop_skip_many) (auto simp: first_ndef_at_nth)
  then show ?thesis
    using assms by (simp add: findNdefMessage_def loop_at_ndef first_ndef_at_nth)
qed

lemma slice_declared:
  "buffer_slice data (Some s) (Some e) = take (e - s) (drop s data)"
  by (auto simp: buffer_slice_def adjustOffset_def Let_def)

lemma slice_nan: "buffer_slice data (Some s) None = []"
  by (auto simp: buffer_slice_def adjustOffset_def Let_def)

lemma find_first_ndef_value:
  assumes "first_ndef_at data offset"
    and "offset + 1 < length data \<longrightarrow> L = unat (data ! (offset + 1))"
  shows "findNdefMessage data = Some (take L (drop (offset + 2) data))"
proof (cases "offset + 1 < length data")
  case True
  then show ?thesis
    using assms by (simp add: find_first_ndef buf_at_def js_add_undef_def slice_declared)
next
  case False
  then show ?thesis
    using assms(1) by (simp add: find_first_ndef buf_at_def js_add_undef_def slice_nan)
qed

lemma loop_none:
  assumes "\<forall>i. offset \<le> i \<and> i < k \<longrightarrow> data ! i \<noteq> 0x03"
    and "k = length data \<or> (k < length data \<and> data ! k = 0xFE)"
    and "offset \<le> k"
  shows "findNdefMessage_loop data offset = None"
  using assms
proof (induction data offset rule: findNdefMessage_loop.induct)
  case (1 data offset)
  show ?case
  proof (cases "offset = k")
    case True
    then show ?thesis using "1.prems"(2)
      by (subst findNdefMessage_loop.simps) (auto simp: Let_def ndefTlv_def terminatorTlv_def)
  next
    case False
    then have lt: "offset < k" using "1.prems"(3) by simp
    then have a: "offset < length data" "data ! offset \<noteq> 0x03" using "1.prems" by auto
    show ?thesis
    proof (cases "data ! offset = 0xFE")
      case True
      then show ?thesis using a
        by (subst findNdefMessage_loop.simps) (simp add: Let_def ndefTlv_def terminatorTlv_def)
    next
      case False
      have "findNdefMessage_loop data (offset + 1) = None"
        using a False lt "1.prems"
        by (intro "1.IH") (auto simp: ndefTlv_def terminatorTlv_def)
      then show ?thesis using a False by (simp add: loop_skip)
    qed
  qed
qed

lemma no_first_ndef_none:
  assumes "\<forall>k. \<not> first_ndef_at data k"
  shows "findNdefMessage data = None"
proof (cases "\<exists>i<length data. data ! i = 0x03 \<or> data ! i = 0xFE")
  case True
  define k where "k = (LEAST i. i < length data \<and> (data ! i = 0x03 \<or> data ! i = 0xFE))"
  from True obtain i0 where "i0 < length data \<and> (data ! i0 = 0x03 \<or> data ! i0 = 0xFE)" by blast
  then have k: "k < length data \<and> (data ! k = 0x03 \<or> data ! k = 0xFE)"
    unfolding k_def by (rule LeastI)
  have least: "\<And>i. i < k \<Longrightarrow> \<not> (i < length data \<and> (data ! i = 0x03 \<or> data ! i = 0xFE))"
    unfolding k_def by (rule not_less_Least)
  then have before: "\<forall>i<k. data ! i \<noteq> 0x03 \<and> data ! i \<noteq> 0xFE"
    using k by auto
  have "data ! k \<noteq> 0x03"
    using assms [rule_format, of k] k before by (auto simp: first_ndef_at_nth)
  then have "data ! k = 0xFE" using k by blast
  then show ?thesis
    unfolding findNdefMessage_def using k before by (intro loop_none [where k = k]) auto
next
  case False
  then show ?thesis
    unfolding findNdefMessage_def by (intro loop_none [where k = "length data"]) auto
qed

subsection \<open>Claims about the scanner\<close>

text \<open>
  C1, as stated, fails: the buffer \<open>[0x03, 0x05, 0x01]\<close> has a 0x03 tag at offset 0 with
  declared length 5, and \<open>0 + 2 + 5\<close> exceeds its length 3; the scanner does not return
  absent, it returns the one byte that is there.
\<close>

theorem findNdefMessage_overrun_counterexample:
  "first_ndef_at [0x03, 0x05, 0x01] 0 \<and>
   length [0x03, 0x05, 0x01 :: byte] < 0 + 2 + unat ([0x03, 0x05, 0x01 :: byte] ! (0 + 1)) \<and>
   findNdefMessage [0x03, 0x05, 0x01] = Some [0x01]"
  by (simp add: first_ndef_at_def findNdefMessage_def findNdefMessage_loop.simps Let_def
      ndefTlv_def buf_at_def js_add_undef_def buffer_slice_def adjustOffset_def)

text \<open>
  C1 (amended): when the scanner reaches a 0x03 tag at \<open>offset\<close> whose length byte
  \<open>L = data[offset + 1]\<close> is inside the buffer, it returns a value. If
  \<open>offset + 2 + L\<close> exceeds the length of the buffer, the value is the rest of the buffer
  after the length byte, shorter than \<open>L\<close>; the length of the value equals \<open>L\<close> exactly
  when \<open>offset + 2 + L\<close> does not exceed the length of the buffer.
\<close>

theorem findNdefMessage_overrun_clamped:
  assumes "first_ndef_at data offset"
    and "offset + 1 < length data"
    and "L = unat (data ! (offset + 1))"
  shows "\<exists>v. findNdefMessage data = Some v \<and>
           (length data < offset + 2 + L \<longrightarrow> v = drop (offset + 2) data \<and> length v < L) \<and>
           (length v = L \<longleftrightarrow> offset + 2 + L \<le> length data)"
proof -
  have "findNdefMessage data = Some (take L (drop (offset + 2) data))"
    using assms by (intro find_first_ndef_value) simp_all
  moreover have "length data < offset + 2 + L \<longrightarrow>
      take L (drop (offset + 2) data) = drop (offset + 2) data"
    by simp
  moreover have "length data < offset + 2 + L \<longrightarrow> length (drop (offset + 2) data) < L"
    using assms(2) by auto
  moreover have "length (take L (drop (offset + 2) data)) = L \<longleftrightarrow> offset + 2 + L \<le> length data"
    using assms(2) by auto
  ultimately show ?thesis by simp
qed

theorem findNdefMessage_overrun_clamped_witness:
  "first_ndef_at [0x00, 0x03, 0x05, 0x07, 0x09] 1 \<and>
   1 + 1 < length [0x00, 0x03, 0x05, 0x07, 0x09 :: byte] \<and>
   (5::nat) = unat ([0x00, 0x03, 0x05, 0x07, 0x09 :: byte] ! (1 + 1)) \<and>
   length [0x00, 0x03, 0x05, 0x07, 0x09 :: byte] < 1 + 2 + 5 \<and>
   findNdefMessage [0x00, 0x03, 0x05, 0x07, 0x09] = Some [0x07, 0x09]"
proof -
  have f: "first_ndef_at [0x00, 0x03, 0x05, 0x07, 0x09] 1"
    by (simp add: first_ndef_at_def)
  have l: "1 + 1 < length [0x00, 0x03, 0x05, 0x07, 0x09 :: byte]"
    by simp
  have d: "(5::nat) = unat ([0x00, 0x03, 0x05, 0x07, 0x09 :: byte] ! (1 + 1))"
    by simp
  have o: "length [0x00, 0x03, 0x05, 0x07, 0x09 :: byte] < 1 + 2 + 5"
    by simp
  from findNdefMessage_overrun_clamped [OF f l d] o
  obtain v where "findNdefMessage [0x00, 0x03, 0x05, 0x07, 0x09] = Some v"
    and "v = drop (1 + 2) [0x00, 0x03, 0x05, 0x07, 0x09]"
    by blast
  then have "findNdefMessage [0x00, 0x03, 0x05, 0x07, 0x09] = Some [0x07, 0x09]"
    by simp
  with f l d o show ?thesis by blast
qed

text \<open>
  C3: if \<open>data[offset]\<close> is 0x03, no earlier byte is 0x03 or 0xFE, \<open>L = data[offset + 1]\<close>
  and the buffer holds at least \<open>offset + 2 + L\<close> bytes, then the scanner returns exactly
  the \<open>L\<close> bytes that follow the length byte. The loop moves from each earlier offset to
  the next one, and what follows the first NDEF Message TLV has no influence on the result.
\<close>

theorem findNdefMessage_first_tlv:
  assumes "offset < length data"
    and "data ! offset = 0x03"
    and "\<forall>i<offset. data ! i \<noteq> 0x03 \<and> data ! i \<noteq> 0xFE"
    and "L = unat (data ! (offset + 1))"
    and "offset + 2 + L \<le> length data"
  shows "findNdefMessage data = Some (take L (drop (offset + 2) data)) \<and>
         length (take L (drop (offset + 2) data)) = L \<and>
         (\<forall>i<L. take L (drop (offset + 2) data) ! i = data ! (offset + 2 + i)) \<and>
         (\<forall>i<offset. findNdefMessage_loop data i = findNdefMessage_loop data (i + 1)) \<and>
         findNdefMessage_loop data offset = Some (take L (drop (offset + 2) data)) \<and>
         (\<forall>more. findNdefMessage (take (offset + 2 + L) data @ more) =
                   Some (take L (drop (offset + 2) data)))"
proof -
  let ?v = "take L (drop (offset + 2) data)"
  have first: "first_ndef_at data offset"
    using assms(1-3) by (simp add: first_ndef_at_nth)
  have c1: "findNdefMessage data = Some ?v"
    using first assms(4) by (intro find_first_ndef_value) simp_all
  have c2: "length ?v = L"
    using assms(5) by simp
  have c3: "\<forall>i<L. ?v ! i = data ! (offset + 2 + i)"
    using assms(5) by simp
  have c4: "\<forall>i<offset. findNdefMessage_loop data i = findNdefMessage_loop data (i + 1)"
  proof (intro allI impI)
    fix i assume "i < offset"
    then show "findNdefMessage_loop data i = findNdefMessage_loop data (i + 1)"
      using assms(1,3) by (intro loop_skip) auto
  qed
  have c5: "findNdefMessage_loop data offset = Some ?v"
    using assms
    by (simp add: loop_at_ndef buf_at_def js_add_undef_def slice_declared)
  have c6: "findNdefMessage (take (offset + 2 + L) data @ more) = Some ?v" for more
  proof -
    let ?d = "take (offset + 2 + L) data @ more"
    have n: "\<And>i. i < offset + 2 + L \<Longrightarrow> ?d ! i = data ! i"
      using assms(5) by (simp add: nth_append)
    have "first_ndef_at ?d offset"
      using assms(1-3,5) n by (simp add: first_ndef_at_nth)
    moreover have "L = unat (?d ! (offset + 1))"
      using assms(4) n [of "offset + 1"] by simp
    ultimately have "findNdefMessage ?d = Some (take L (drop (offset + 2) ?d))"
      by (intro find_first_ndef_value) simp_all
    moreover have "take L (drop (offset + 2) ?d) = ?v"
      using assms(5) by (simp add: take_drop min_def)
    ultimately show ?thesis by simp
  qed
  from c1 c2 c3 c4 c5 c6 show ?thesis by blast
qed

theorem findNdefMessage_first_tlv_witness:
  "first_ndef_at [0x00, 0x03, 0x02, 0x07, 0x09, 0x03, 0x01, 0x08, 0xFE] 1 \<and>
   (2::nat) = unat ([0x00, 0x03, 0x02, 0x07, 0x09, 0x03, 0x01, 0x08, 0xFE :: byte] ! (1 + 1)) \<and>
   1 + 2 + 2 \<le> length [0x00, 0x03, 0x02, 0x07, 0x09, 0x03, 0x01, 0x08, 0xFE :: byte] \<and>
   findNdefMessage [0x00, 0x03, 0x02, 0x07, 0x09, 0x03, 0x01, 0x08, 0xFE] = Some [0x07, 0x09]"
proof -
  let ?d = "[0x00, 0x03, 0x02, 0x07, 0x09, 0x03, 0x01, 0x08, 0xFE :: byte]"
  have f: "first_ndef_at ?d 1" by (simp add: first_ndef_at_def)
  have h1: "1 < length ?d" by simp
  have h2: "?d ! 1 = 0x03" by simp
  have h3: "\<forall>i<1. ?d ! i \<noteq> 0x03 \<and> ?d ! i \<noteq> 0xFE" by simp
  have h4: "(2::nat) = unat (?d ! (1 + 1))" by simp
  have h5: "1 + 2 + 2 \<le> length ?d" by simp
  have "findNdefMessage ?d = Some (take 2 (drop (1 + 2) ?d))"
    using findNdefMessage_first_tlv [OF h1 h2 h3 h4 h5] by (rule conjunct1)
  then have "findNdefMessage ?d = Some [0x07, 0x09]" by simp
  with f h4 h5 show ?thesis by (intro conjI)
qed

text \<open>
  C4, as stated, fails on the one-byte buffer \<open>[0x03]\<close>: the scanner returns an empty
  value, which is not absent.
\<close>

theorem findNdefMessage_lone_tag_counterexample:
  "length [0x03 :: byte] < 2 \<and> findNdefMessage [0x03] = Some []"
  by (simp add: findNdefMessage_def findNdefMessage_loop.simps Let_def
      ndefTlv_def buf_at_def js_add_undef_def buffer_slice_def adjustOffset_def)

text \<open>
  C4 (amended): the scanner returns absent for every buffer whose first byte is 0xFE and
  for every buffer shorter than 2 bytes other than \<open>[0x03]\<close>; for \<open>[0x03]\<close> it returns
  an empty value.
\<close>

theorem findNdefMessage_absent:
  "(data \<noteq> [] \<and> data ! 0 = 0xFE \<longrightarrow> findNdefMessage data = None) \<and>
   (length data < 2 \<and> data \<noteq> [0x03] \<longrightarrow> findNdefMessage data = None) \<and>
   findNdefMessage [0x03] = Some []"
proof (intro conjI impI)
  assume "data \<noteq> [] \<and> data ! 0 = 0xFE"
  then show "findNdefMessage data = None"
    unfolding findNdefMessage_def by (intro loop_none [where k = 0]) auto
next
  assume a: "length data < 2 \<and> data \<noteq> [0x03]"
  show "findNdefMessage data = None"
  proof (cases data)
    case Nil
    then show ?thesis
      unfolding findNdefMessage_def by (intro loop_none [where k = 0]) auto
  next
    case (Cons b bs)
    with a have bs: "bs = []" and b: "b \<noteq> 0x03" by auto
    show ?thesis
      unfolding findNdefMessage_def using Cons bs b
      by (intro loop_none [where k = 1]) auto
  qed
next
  have "first_ndef_at [0x03] 0" by (simp add: first_ndef_at_def)
  then have "findNdefMessage [0x03] = Some (take 0 (drop (0 + 2) [0x03]))"
    by (intro find_first_ndef_value) simp_all
  then show "findNdefMessage [0x03] = Some []" by simp
qed

theorem findNdefMessage_absent_witness:
  "([0xFE, 0x03, 0x00] \<noteq> [] \<and> [0xFE, 0x03, 0x00 :: byte] ! 0 = 0xFE) \<and>
   findNdefMessage [0xFE, 0x03, 0x00] = None \<and>
   (length [0x07 :: byte] < 2 \<and> [0x07 :: byte] \<noteq> [0x03]) \<and>
   findNdefMessage [0x07] = None"
  using findNdefMessage_absent [of "[0xFE, 0x03, 0x00]"] findNdefMessage_absent [of "[0x07]"]
  by simp

text \<open>
  C10: the scanner returns on every buffer. When it reaches a 0x03 tag at \<open>offset\<close>, it
  returns a value of length \<open>min(L, max(0, length - offset - 2))\<close>, where \<open>L\<close> is the
  length byte \<open>data[offset + 1]\<close> (when that byte is beyond the buffer, the length is 0
  whatever \<open>L\<close> is), and every byte of the value is a byte of the buffer. When it reaches
  no 0x03 tag, it returns absent.
\<close>

theorem findNdefMessage_total_clamped:
  "(first_ndef_at data offset \<and> (offset + 1 < length data \<longrightarrow> L = unat (data ! (offset + 1)))
      \<longrightarrow> (\<exists>v. findNdefMessage data = Some v \<and>
               int (length v) = min (int L) (max 0 (int (length data) - int offset - 2)) \<and>
               (\<forall>i<length v. offset + 2 + i < length data \<and> v ! i = data ! (offset + 2 + i)))) \<and>
   ((\<forall>k. \<not> first_ndef_at data k) \<longrightarrow> findNdefMessage data = None)"
proof (intro conjI impI)
  assume a: "first_ndef_at data offset \<and>
    (offset + 1 < length data \<longrightarrow> L = unat (data ! (offset + 1)))"
  let ?v = "take L (drop (offset + 2) data)"
  have "findNdefMessage data = Some ?v"
    using a by (intro find_first_ndef_value) simp_all
  moreover have "int (length ?v) = min (int L) (max 0 (int (length data) - int offset - 2))"
    by auto
  moreover have "\<forall>i<length ?v. offset + 2 + i < length data \<and> ?v ! i = data ! (offset + 2 + i)"
    by auto
  ultimately show "\<exists>v. findNdefMessage data = Some v \<and>
      int (length v) = min (int L) (max 0 (int (length data) - int offset - 2)) \<and>
      (\<forall>i<length v. offset + 2 + i < length data \<and> v ! i = data ! (offset + 2 + i))"
    by blast
next
  assume "\<forall>k. \<not> first_ndef_at data k"
  then show "findNdefMessage data = None" by (rule no_first_ndef_none)
qed

theorem findNdefMessage_total_clamped_witness:
  "first_ndef_at [0x00, 0x03, 0x05, 0x07, 0x09] 1 \<and>
   (5::nat) = unat ([0x00, 0x03, 0x05, 0x07, 0x09 :: byte] ! (1 + 1)) \<and>
   (\<exists>v. findNdefMessage [0x00, 0x03, 0x05, 0x07, 0x09] = Some v \<and> length v = 2) \<and>
   (\<forall>k. \<not> first_ndef_at [0x00, 0xFE, 0x03 :: byte] k) \<and>
   findNdefMessage [0x00, 0xFE, 0x03] = None"
proof -
  let ?d = "[0x00, 0x03, 0x05, 0x07, 0x09 :: byte]"
  let ?e = "[0x00, 0xFE, 0x03 :: byte]"
  have f: "first_ndef_at ?d 1"
    by (simp add: first_ndef_at_def)
  have l: "(5::nat) = unat (?d ! (1 + 1))"
    by simp
  have fl: "first_ndef_at ?d 1 \<and> (1 + 1 < length ?d \<longrightarrow> (5::nat) = unat (?d ! (1 + 1)))"
    using f l by blast
  have "\<exists>v. findNdefMessage ?d = Some v \<and>
          int (length v) = min (int 5) (max 0 (int (length ?d) - int 1 - 2)) \<and>
          (\<forall>i<length v. 1 + 2 + i < length ?d \<and> v ! i = ?d ! (1 + 2 + i))"
    using findNdefMessage_total_clamped [of ?d 1 5, THEN conjunct1] fl by (rule mp)
  then obtain v where v: "findNdefMessage ?d = Some v"
    and lv: "int (length v) = min (int 5) (max 0 (int (length ?d) - int 1 - 2))"
    by blast
  from lv have "length v = 2" by simp
  with v have r: "\<exists>v. findNdefMessage ?d = Some v \<and> length v = 2" by blast
  have n: "\<forall>k. \<not> first_ndef_at ?e k"
  proof (intro allI notI)
    fix k :: nat
    assume a: "first_ndef_at ?e k"
    then have "k < 3" by (simp add: first_ndef_at_def)
    then have "k = 0 \<or> k = 1 \<or> k = 2" by arith
    then show False
    proof (elim disjE)
      assume "k = 0" with a show False by (simp add: first_ndef_at_def)
    next
      assume "k = 1" with a show False by (simp add: first_ndef_at_def)
    next
      assume "k = 2" with a show False by (simp add: first_ndef_at_def)
    qed
  qed
  have "findNdefMessage ?e = None"
    using findNdefMessage_total_clamped [of ?e, THEN conjunct2] n by (rule mp)
  with f l r n show ?thesis by (intro conjI)
qed

section \<open>Properties of the URI record resolver\<close>

subsection \<open>The prefix table\<close>

lemma URI_PREFIXES_keys: "map fst URI_PREFIXES = [0..<36]"
  by (simp add: URI_PREFIXES_def upt_conv_Cons)

lemma URI_PREFIXES_values: "map snd URI_PREFIXES = map js_str nfc_forum_uri_prefixes"
  by (simp add: URI_PREFIXES_def nfc_forum_uri_prefixes_def)

lemma URI_PREFIXES_lookup:
  assumes "n < 36"
  shows "map_of URI_PREFIXES n = Some (js_str (nfc_forum_uri_prefixes ! n))"
proof -
  have len: "length URI_PREFIXES = 36"
    using arg_cong [OF URI_PREFIXES_keys, of length] by simp
  have key: "fst (URI_PREFIXES ! n) = n"
    using arg_cong [OF URI_PREFIXES_keys, of "\<lambda>xs. xs ! n"] assms len by simp
  have val: "snd (URI_PREFIXES ! n) = js_str (nfc_forum_uri_prefixes ! n)"
  proof -
    have "length nfc_forum_uri_prefixes = 36"
      using arg_cong [OF URI_PREFIXES_values, of length] len by simp
    then show ?thesis
      using arg_cong [OF URI_PREFIXES_values, of "\<lambda>xs. xs ! n"] assms len by simp
  qed
  have "distinct (map fst URI_PREFIXES)"
    by (simp add: URI_PREFIXES_keys)
  moreover have "(n, js_str (nfc_forum_uri_prefixes ! n)) \<in> set URI_PREFIXES"
    using nth_mem [of n URI_PREFIXES] assms len key val
    by (metis prod.collapse)
  ultimately show ?thesis by (rule map_of_is_SomeI)
qed

lemma URI_PREFIXES_outside:
  assumes "36 \<le> n"
  shows "map_of URI_PREFIXES n = None"
proof -
  have "fst ` set URI_PREFIXES = set [0..<36]"
    using arg_cong [OF URI_PREFIXES_keys, of set] by simp
  then have "n \<notin> fst ` set URI_PREFIXES" using assms by simp
  then show ?thesis by (simp add: map_of_eq_None_iff)
qed

lemma or_empty_Some: "or_empty (Some s) = s"
  by (simp add: or_empty_def)

lemma or_empty_None: "or_empty None = []"
  by (simp add: or_empty_def)

subsection \<open>Slicing and decoding\<close>

lemma slice_from: "buffer_slice_from data (Some s) = drop s data"
  by (auto simp: buffer_slice_from_def adjustOffset_def Let_def)

lemma ascii_le: "(b :: byte) < 0x80 \<Longrightarrow> b \<le> 0x7F"
  by (simp add: word_less_nat_alt word_le_nat_alt)

lemma utf8_decode_ascii:
  "list_all (\<lambda>b. b < 0x80) bs \<Longrightarrow> utf8_decode 0 0 0x80 0xBF bs = map unat bs"
  by (induction bs) (simp_all add: ascii_le)

lemma unat_byte_lt: "unat (b :: byte) < 0x10000"
  using unsigned_less [of b, where ?'a = nat] by simp

lemma buffer_toString_utf8_ascii:
  assumes "list_all (\<lambda>b. b < 0x80) bs"
  shows "buffer_toString_utf8 bs = map (\<lambda>b. of_nat (unat b)) bs"
proof -
  have "concat (map utf16_units (map unat bs)) = map (\<lambda>b. of_nat (unat b)) bs"
    by (induction bs) (simp_all add: utf16_units_def unat_byte_lt)
  then show ?thesis
    using assms by (simp add: buffer_toString_utf8_def utf8_decode_ascii)
qed

subsection \<open>The result of parseUriRecord\<close>

lemma parseUriRecord_short:
  "length data < 2 \<Longrightarrow> parseUriRecord data con = (None, con)"
  by (simp add: parseUriRecord_def)

lemma parseUriRecord_result:
  assumes "2 \<le> length data"
  shows "fst (parseUriRecord data con) =
    Some \<lparr> prefixCode = data ! 0,
           prefix = or_empty (map_of URI_PREFIXES (unat (data ! 0))),
           uri = buffer_toString_utf8 (drop 1 data),
           fullUri = or_empty (map_of URI_PREFIXES (unat (data ! 0))) @
                     buffer_toString_utf8 (drop 1 data),
           raw = \<lparr> raw_prefixCode = data ! 0,
                   raw_uriData = buffer_toString_hex (drop 1 data) \<rparr> \<rparr>"
  using assms by (simp add: parseUriRecord_def Let_def slice_from)

subsection \<open>Claims about the resolver\<close>

text \<open>
  C2, as stated, fails on a payload of one byte: \<open>parseUriRecord\<close> returns \<open>null\<close> on
  \<open>[0x04]\<close>, it does not resolve it to the bare prefix.
\<close>

theorem parseUriRecord_one_byte_counterexample:
  "length [0x04 :: byte] = 1 \<and> fst (parseUriRecord [0x04] []) = None"
  by (simp add: parseUriRecord_def)

text \<open>
  C2 (amended): \<open>parseUriRecord\<close> fails (it returns \<open>null\<close>) if and only if the payload
  has fewer than 2 bytes. For every payload of length at least 2 it succeeds, and the
  result has the prefix code \<open>payload[0]\<close>, the prefix that the table gives for it, and
  the suffix \<open>payload[1:]\<close> decoded as UTF-8.
\<close>

theorem parseUriRecord_fails_iff_short:
  "(fst (parseUriRecord data con) = None \<longleftrightarrow> length data < 2) \<and>
   (2 \<le> length data \<longrightarrow>
      (\<exists>r. fst (parseUriRecord data con) = Some r \<and>
           prefixCode r = data ! 0 \<and>
           prefix r = or_empty (map_of URI_PREFIXES (unat (data ! 0))) \<and>
           uri r = buffer_toString_utf8 (drop 1 data)))"
proof (cases "length data < 2")
  case True
  then show ?thesis by (simp add: parseUriRecord_short)
next
  case False
  then have "2 \<le> length data" by simp
  from parseUriRecord_result [OF this, of con] False show ?thesis by simp
qed

theorem parseUriRecord_fails_iff_short_witness:
  "2 \<le> length [0x04, 0x41 :: byte] \<and>
   (\<exists>r. fst (parseUriRecord [0x04, 0x41] []) = Some r \<and>
        prefixCode r = 0x04 \<and> prefix r = js_str ''https://'' \<and> uri r = js_str ''A'') \<and>
   length ([] :: byte list) < 2 \<and> fst (parseUriRecord [] []) = None"
proof -
  have l: "2 \<le> length [0x04, 0x41 :: byte]" by simp
  have p: "or_empty (map_of URI_PREFIXES (unat ([0x04, 0x41 :: byte] ! 0))) = js_str ''https://''"
    by (simp add: URI_PREFIXES_def or_empty_def js_str_def)
  have u: "buffer_toString_utf8 (drop 1 [0x04, 0x41]) = js_str ''A''"
    by (simp add: buffer_toString_utf8_ascii js_str_def)
  from parseUriRecord_fails_iff_short [of "[0x04, 0x41]" "[]", THEN conjunct2] l
  have "\<exists>r. fst (parseUriRecord [0x04, 0x41] []) = Some r \<and>
           prefixCode r = [0x04, 0x41] ! 0 \<and>
           prefix r = or_empty (map_of URI_PREFIXES (unat ([0x04, 0x41 :: byte] ! 0))) \<and>
           uri r = buffer_toString_utf8 (drop 1 [0x04, 0x41])"
    by (rule mp)
  with p u have a: "\<exists>r. fst (parseUriRecord [0x04, 0x41] []) = Some r \<and>
        prefixCode r = 0x04 \<and> prefix r = js_str ''https://'' \<and> uri r = js_str ''A''"
    by simp
  have e: "length ([] :: byte list) < 2" by simp
  have "fst (parseUriRecord [] []) = None \<longleftrightarrow> length ([] :: byte list) < 2"
    using parseUriRecord_fails_iff_short [of "[]" "[]"] by (rule conjunct1)
  with e have "fst (parseUriRecord [] []) = None" by (rule iffD2 [rotated])
  with l a e show ?thesis by (intro conjI)
qed

text \<open>
  C5: for every prefix code from 0x00 to 0x23 the prefix that \<open>parseUriRecord\<close> produces
  is the entry of the NFC Forum table (36 entries; 0x04 is \<open>https://\<close>, 0x00 is the
  empty string), and for every other prefix code the prefix is the empty string and the
  record is still produced.
\<close>

theorem parseUriRecord_prefix_table:
  assumes "2 \<le> length data"
  shows "(\<exists>r. fst (parseUriRecord data con) = Some r \<and>
            prefixCode r = data ! 0 \<and>
            (unat (data ! 0) \<le> 0x23 \<longrightarrow>
               prefix r = js_str (nfc_forum_uri_prefixes ! unat (data ! 0))) \<and>
            (0x23 < unat (data ! 0) \<longrightarrow> prefix r = [])) \<and>
         length nfc_forum_uri_prefixes = 36 \<and>
         nfc_forum_uri_prefixes ! 0x04 = ''https://'' \<and>
         nfc_forum_uri_prefixes ! 0x00 = ''''"
proof -
  let ?c = "unat (data ! 0)"
  have a: "?c \<le> 0x23 \<longrightarrow> or_empty (map_of URI_PREFIXES ?c) = js_str (nfc_forum_uri_prefixes ! ?c)"
    by (simp add: URI_PREFIXES_lookup or_empty_Some)
  have b: "0x23 < ?c \<longrightarrow> or_empty (map_of URI_PREFIXES ?c) = []"
    by (simp add: URI_PREFIXES_outside or_empty_None)
  have "\<exists>r. fst (parseUriRecord data con) = Some r \<and>
            prefixCode r = data ! 0 \<and>
            (?c \<le> 0x23 \<longrightarrow> prefix r = js_str (nfc_forum_uri_prefixes ! ?c)) \<and>
            (0x23 < ?c \<longrightarrow> prefix r = [])"
    using parseUriRecord_result [OF assms, of con] a b by simp
  moreover have "length nfc_forum_uri_prefixes = 36"
    by (simp add: nfc_forum_uri_prefixes_def)
  moreover have "nfc_forum_uri_prefixes ! 0x04 = ''https://''"
    by (simp add: nfc_forum_uri_prefixes_def)
  moreover have "nfc_forum_uri_prefixes ! 0x00 = ''''"
    by (simp add: nfc_forum_uri_prefixes_def)
  ultimately show ?thesis by (intro conjI)
qed

theorem parseUriRecord_prefix_table_witness:
  "2 \<le> length [0x04, 0x41 :: byte] \<and> unat ([0x04, 0x41 :: byte] ! 0) \<le> 0x23 \<and>
   (\<exists>r. fst (parseUriRecord [0x04, 0x41] []) = Some r \<and> prefix r = js_str ''https://'') \<and>
   2 \<le> length [0x50, 0x41 :: byte] \<and> 0x23 < unat ([0x50, 0x41 :: byte] ! 0) \<and>
   (\<exists>r. fst (parseUriRecord [0x50, 0x41] []) = Some r \<and> prefix r = [])"
proof -
  have l1: "2 \<le> length [0x04, 0x41 :: byte]" by simp
  have c1: "unat ([0x04, 0x41 :: byte] ! 0) \<le> 0x23" by simp
  have l2: "2 \<le> length [0x50, 0x41 :: byte]" by simp
  have c2: "0x23 < unat ([0x50, 0x41 :: byte] ! 0)" by simp
  have t: "js_str (nfc_forum_uri_prefixes ! unat ([0x04, 0x41 :: byte] ! 0)) = js_str ''https://''"
    by (simp add: nfc_forum_uri_prefixes_def)
  from parseUriRecord_prefix_table [OF l1, of "[]", THEN conjunct1]
  obtain r where r: "fst (parseUriRecord [0x04, 0x41] []) = Some r"
    and "unat ([0x04, 0x41 :: byte] ! 0) \<le> 0x23 \<longrightarrow>
         prefix r = js_str (nfc_forum_uri_prefixes ! unat ([0x04, 0x41 :: byte] ! 0))"
    by blast
  with c1 t have "prefix r = js_str ''https://''" by simp
  with r have a: "\<exists>r. fst (parseUriRecord [0x04, 0x41] []) = Some r \<and> prefix r = js_str ''https://''"
    by blast
  from parseUriRecord_prefix_table [OF l2, of "[]", THEN conjunct1]
  obtain q where q: "fst (parseUriRecord [0x50, 0x41] []) = Some q"
    and "0x23 < unat ([0x50, 0x41 :: byte] ! 0) \<longrightarrow> prefix q = []"
    by blast
  with c2 have "prefix q = []" by blast
  with q have b: "\<exists>r. fst (parseUriRecord [0x50, 0x41] []) = Some r \<and> prefix r = []"
    by blast
  from l1 c1 a l2 c2 b show ?thesis by (intro conjI)
qed

text \<open>
  C6: the payload \<open>[0x04, 0x67, 0x6F, 0x6F, 0x67, 0x6C, 0x65, 0x2E, 0x63, 0x6F, 0x6D]\<close>
  resolves to \<open>https://google.com\<close>, the payload \<open>[0x00, 0x41, 0x42]\<close> to \<open>AB\<close>, and in
  every record that \<open>parseUriRecord\<close> returns the full URI is the prefix followed by the
  suffix.
\<close>

theorem parseUriRecord_scenarios:
  "map_option fullUri
     (fst (parseUriRecord [0x04, 0x67, 0x6F, 0x6F, 0x67, 0x6C, 0x65, 0x2E, 0x63, 0x6F, 0x6D] con))
     = Some (js_str ''https://google.com'') \<and>
   map_option fullUri (fst (parseUriRecord [0x00, 0x41, 0x42] con)) = Some (js_str ''AB'') \<and>
   (\<forall>r. fst (parseUriRecord data con) = Some r \<longrightarrow> fullUri r = prefix r @ uri r)"
proof (intro conjI allI impI)
  let ?d = "[0x04, 0x67, 0x6F, 0x6F, 0x67, 0x6C, 0x65, 0x2E, 0x63, 0x6F, 0x6D :: byte]"
  have l: "2 \<le> length ?d" by simp
  have p: "or_empty (map_of URI_PREFIXES (unat (?d ! 0))) = js_str ''https://''"
    by (simp add: URI_PREFIXES_def or_empty_def js_str_def)
  have u: "buffer_toString_utf8 (drop 1 ?d) = js_str ''google.com''"
    by (simp add: buffer_toString_utf8_ascii js_str_def)
  have "js_str ''https://'' @ js_str ''google.com'' = js_str ''https://google.com''"
    by (simp add: js_str_def)
  then show "map_option fullUri (fst (parseUriRecord ?d con)) = Some (js_str ''https://google.com'')"
    using parseUriRecord_result [OF l, of con] p u by simp
next
  let ?d = "[0x00, 0x41, 0x42 :: byte]"
  have l: "2 \<le> length ?d" by simp
  have p: "or_empty (map_of URI_PREFIXES (unat (?d ! 0))) = []"
    by (simp add: URI_PREFIXES_def or_empty_def js_str_def)
  have u: "buffer_toString_utf8 (drop 1 ?d) = js_str ''AB''"
    by (simp add: buffer_toString_utf8_ascii js_str_def)
  show "map_option fullUri (fst (parseUriRecord ?d con)) = Some (js_str ''AB'')"
    using parseUriRecord_result [OF l, of con] p u by simp
next
  fix r
  assume a: "fst (parseUriRecord data con) = Some r"
  then have "2 \<le> length data"
    by (cases "length data < 2") (simp_all add: parseUriRecord_short)
  from parseUriRecord_result [OF this, of con] a show "fullUri r = prefix r @ uri r"
    by auto
qed

theorem parseUriRecord_scenarios_witness:
  "\<exists>r. fst (parseUriRecord [0x00, 0x41, 0x42] []) = Some r \<and>
       fullUri r = js_str ''AB'' \<and> fullUri r = prefix r @ uri r"
proof -
  have "map_option fullUri (fst (parseUriRecord [0x00, 0x41, 0x42] [])) = Some (js_str ''AB'')"
    using parseUriRecord_scenarios [of "[]" "[0x00, 0x41, 0x42]"] by blast
  then obtain r where r: "fst (parseUriRecord [0x00, 0x41, 0x42] []) = Some r"
    and f: "fullUri r = js_str ''AB''"
    by (cases "fst (parseUriRecord [0x00, 0x41, 0x42] [])") auto
  have "\<forall>r. fst (parseUriRecord [0x00, 0x41, 0x42] []) = Some r \<longrightarrow> fullUri r = prefix r @ uri r"
    using parseUriRecord_scenarios [of "[]" "[0x00, 0x41, 0x42]"] by blast
  with r have "fullUri r = prefix r @ uri r" by blast
  with r f show ?thesis by blast
qed

text \<open>
  C8: the record that \<open>parseUriRecord\<close> returns depends on the payload only. Two runs on
  the same payload return the same record whatever the console holds, and so does a
  second run that starts where the first one ended.
\<close>

theorem parseUriRecord_deterministic:
  "fst (parseUriRecord data con1) = fst (parseUriRecord data con2) \<and>
   fst (parseUriRecord data (snd (parseUriRecord data con))) = fst (parseUriRecord data con)"
  by (simp add: parseUriRecord_def Let_def)

section \<open>Properties of the legacy decoder\<close>

subsection \<open>Printing and reading a number\<close>

lemma unat_code_unit: "k < 65536 \<Longrightarrow> unat (of_nat k :: 16 word) = k"
  by (simp add: unat_of_nat)

lemma digit_unit_unat: "d < 10 \<Longrightarrow> unat (digit_unit d) = 0x30 + d"
  unfolding digit_unit_def by (rule unat_code_unit) simp

lemma digit_unit_is_digit: "d < 10 \<Longrightarrow> is_digit (digit_unit d)"
  by (simp add: is_digit_def word_le_nat_alt digit_unit_unat)

lemma digit_unit_value: "d < 10 \<Longrightarrow> digit_value (digit_unit d) = d"
  by (simp add: digit_value_def digit_unit_unat)

lemma toString10_digits: "list_all is_digit (toString10 n)"
proof (induction n rule: toString10.induct)
  case (1 n)
  show ?case
  proof (cases "n < 10")
    case True
    then show ?thesis
      by (subst toString10.simps) (simp add: digit_unit_is_digit)
  next
    case False
    then have "list_all is_digit (toString10 (n div 10))" by (rule "1.IH")
    moreover have "is_digit (digit_unit (n mod 10))"
      by (rule digit_unit_is_digit) simp
    ultimately show ?thesis
      using False by (subst toString10.simps) simp
  qed
qed

lemma toString10_not_empty: "toString10 n \<noteq> []"
  by (subst toString10.simps) simp

lemma toString10_value:
  "foldl (\<lambda>acc c. acc * 10 + digit_value c) 0 (toString10 n) = n"
proof (induction n rule: toString10.induct)
  case (1 n)
  show ?case
  proof (cases "n < 10")
    case True
    then show ?thesis
      by (subst toString10.simps) (simp add: digit_unit_value)
  next
    case False
    then have "foldl (\<lambda>acc c. acc * 10 + digit_value c) 0 (toString10 (n div 10)) = n div 10"
      by (rule "1.IH")
    moreover have "digit_value (digit_unit (n mod 10)) = n mod 10"
      by (rule digit_unit_value) simp
    ultimately show ?thesis
      using False by (subst toString10.simps) simp
  qed
qed

lemma is_digit_not_whitespace: "is_digit c \<Longrightarrow> \<not> is_whitespace c"
  by (auto simp: is_digit_def is_whitespace_def)

lemma is_digit_not_sign: "is_digit c \<Longrightarrow> c \<noteq> 0x2B \<and> c \<noteq> 0x2D \<and> c \<noteq> 0x2C"
  by (auto simp: is_digit_def)

lemma trim_digits:
  assumes "list_all is_digit s"
  shows "trim s = s"
proof (cases "s = []")
  case True
  then show ?thesis by (simp add: trim_def)
next
  case False
  then have "\<not> is_whitespace (hd s)" "\<not> is_whitespace (hd (rev s))"
    using assms by (simp_all add: list_all_iff is_digit_not_whitespace hd_rev)
  then show ?thesis
    by (simp add: trim_def dropWhile_eq_self_iff [THEN iffD2])
qed

lemma parseInt10_digits:
  assumes "list_all is_digit s" "s \<noteq> []"
  shows "parseInt10 s =
    (case round_to_double (foldl (\<lambda>acc c. acc * 10 + digit_value c) 0 s) of
       None \<Rightarrow> PosInfinity
     | Some m \<Rightarrow> Num (int m))"
proof -
  have h: "is_digit (hd s)"
    using assms by (cases s) simp_all
  have d: "dropWhile is_whitespace s = s"
    using h by (simp add: dropWhile_eq_self_iff is_digit_not_whitespace)
  have t: "takeWhile is_digit s = s"
    using assms(1) by (simp add: list_all_iff)
  show ?thesis
    using assms(2) is_digit_not_sign [OF h]
    by (simp add: parseInt10_def Let_def d t split: option.splits)
qed

lemma parseInt10_toString10:
  assumes "n < 2 ^ 53"
  shows "parseInt10 (trim (toString10 n)) = Num (int n)"
  using assms
  by (simp add: trim_digits toString10_digits parseInt10_digits toString10_not_empty
      toString10_value round_to_double_def)

subsection \<open>Splitting a joined list\<close>

lemma split_on_not_empty: "split_on sep s \<noteq> []"
  by (induction s) (auto split: list.splits)

lemma split_on_no_sep: "sep \<notin> set s \<Longrightarrow> split_on sep s = [s]"
  by (induction s) auto

lemma split_on_append:
  "sep \<notin> set s \<Longrightarrow> split_on sep (s @ sep # rest) = s # split_on sep rest"
  by (induction s) auto

lemma split_on_join:
  assumes "parts \<noteq> []" "\<forall>p\<in>set parts. sep \<notin> set p"
  shows "split_on sep (join_with [sep] parts) = parts"
  using assms
proof (induction "[sep]" parts rule: join_with.induct)
  case 1
  then show ?case by simp
next
  case (2 s)
  then show ?case by (simp add: split_on_no_sep)
next
  case (3 s t ss)
  then show ?case by (simp add: split_on_append)
qed

lemma toString10_no_comma: "0x2C \<notin> set (toString10 n)"
  using toString10_digits [of n] is_digit_not_sign by (auto simp: list_all_iff)

lemma split_on_codes_toString:
  assumes "codes \<noteq> []"
  shows "split_on 0x2C (codes_toString codes) = map toString10 codes"
proof -
  have "js_str '','' = [0x2C]" by (simp add: js_str_def)
  then show ?thesis
    using assms by (simp add: codes_toString_def split_on_join toString10_no_comma)
qed

subsection \<open>The result of decodePayload on printed codes\<close>

lemma fromCharCode_nat: "fromCharCode (Num (int n)) = [of_nat n]"
  by (simp add: fromCharCode_def)

lemma URI_PREFIXES_at_nat: "URI_PREFIXES_at (Num (int n)) = map_of URI_PREFIXES n"
  by (simp add: URI_PREFIXES_at_def)

lemma decodePayload_codes:
  assumes "list_all (\<lambda>n. n < 2 ^ 53) codes"
  shows "decodePayload (codes_toString codes) =
    (case codes of
       [] \<Rightarrow> []
     | c # cs \<Rightarrow> or_empty (map_of URI_PREFIXES c) @ map of_nat cs)"
proof (cases codes)
  case Nil
  have "parseInt10 (trim []) = NaN"
    by (simp add: trim_def parseInt10_def)
  then show ?thesis
    using Nil by (simp add: decodePayload_def codes_toString_def URI_PREFIXES_at_def or_empty_def)
next
  case (Cons c cs)
  have "map (\<lambda>num. parseInt10 (trim num)) (map toString10 codes) = map (\<lambda>n. Num (int n)) codes"
    using assms by (induction codes) (simp_all add: parseInt10_toString10)
  then have numbers: "map (\<lambda>num. parseInt10 (trim num)) (split_on 0x2C (codes_toString codes))
      = map (\<lambda>n. Num (int n)) codes"
    using Cons by (simp add: split_on_codes_toString)
  have "concat (map fromCharCode (map (\<lambda>n. Num (int n)) cs)) = map of_nat cs"
    by (induction cs) (simp_all add: fromCharCode_nat)
  then show ?thesis
    using Cons numbers by (simp add: decodePayload_def Let_def URI_PREFIXES_at_nat)
qed

subsection \<open>Claims about the legacy decoder\<close>

text \<open>
  C7: for every list of codes, printed in decimal and joined by commas as the caller
  does, \<open>decodePayload\<close> looks the first code up in \<open>URI_PREFIXES\<close> and appends one
  character per remaining code, the code unit \<open>String.fromCharCode\<close> gives (the code
  itself below \<open>2 ^ 16\<close>). The codes are below \<open>2 ^ 53\<close>, where \<open>parseInt\<close> is exact.
  In particular the payload \<open>4,103,111,111,103,108,101\<close> yields \<open>https://google\<close>.
\<close>

theorem decodePayload_code_list:
  "(list_all (\<lambda>n. n < 2 ^ 53) codes \<longrightarrow>
      decodePayload (codes_toString codes) =
        (case codes of
           [] \<Rightarrow> []
         | c # cs \<Rightarrow> or_empty (map_of URI_PREFIXES c) @ map of_nat cs)) \<and>
   codes_toString [4, 103, 111, 111, 103, 108, 101] = js_str ''4,103,111,111,103,108,101'' \<and>
   decodePayload (js_str ''4,103,111,111,103,108,101'') = js_str ''https://google''"
proof (intro conjI impI)
  assume "list_all (\<lambda>n. n < 2 ^ 53) codes"
  then show "decodePayload (codes_toString codes) =
      (case codes of [] \<Rightarrow> [] | c # cs \<Rightarrow> or_empty (map_of URI_PREFIXES c) @ map of_nat cs)"
    by (rule decodePayload_codes)
next
  show s: "codes_toString [4, 103, 111, 111, 103, 108, 101] = js_str ''4,103,111,111,103,108,101''"
    by (simp add: codes_toString_def toString10.simps digit_unit_def js_str_def)
  have "list_all (\<lambda>n. n < 2 ^ 53) [4, 103, 111, 111, 103, 108, 101 :: nat]"
    by simp
  then have "decodePayload (codes_toString [4, 103, 111, 111, 103, 108, 101]) =
      or_empty (map_of URI_PREFIXES 4) @ map of_nat [103, 111, 111, 103, 108, 101]"
    using decodePayload_codes [of "[4, 103, 111, 111, 103, 108, 101]"] by simp
  moreover have "or_empty (map_of URI_PREFIXES 4) @ map of_nat [103, 111, 111, 103, 108, 101]
      = js_str ''https://google''"
    by (simp add: URI_PREFIXES_def or_empty_def js_str_def)
  ultimately show "decodePayload (js_str ''4,103,111,111,103,108,101'') = js_str ''https://google''"
    using s by simp
qed

theorem decodePayload_code_list_witness:
  "list_all (\<lambda>n. n < 2 ^ 53) [5, 49, 50 :: nat] \<and>
   codes_toString [5, 49, 50] = js_str ''5,49,50'' \<and>
   decodePayload (js_str ''5,49,50'') = js_str ''tel:12''"
proof -
  have b: "list_all (\<lambda>n. n < 2 ^ 53) [5, 49, 50 :: nat]"
    by simp
  have s: "codes_toString [5, 49, 50] = js_str ''5,49,50''"
    by (simp add: codes_toString_def toString10.simps digit_unit_def js_str_def)
  have "list_all (\<lambda>n. n < 2 ^ 53) [5, 49, 50 :: nat] \<longrightarrow>
      decodePayload (codes_toString [5, 49, 50]) =
        (case [5, 49, 50] of
           [] \<Rightarrow> []
         | c # cs \<Rightarrow> or_empty (map_of URI_PREFIXES c) @ map of_nat cs)"
    using decodePayload_code_list [of "[5, 49, 50]"] by (rule conjunct1)
  then have "decodePayload (codes_toString [5, 49, 50]) =
      or_empty (map_of URI_PREFIXES 5) @ map of_nat [49, 50]"
    using b by simp
  moreover have "or_empty (map_of URI_PREFIXES 5) @ map of_nat [49, 50] = js_str ''tel:12''"
    by (simp add: URI_PREFIXES_def or_empty_def js_str_def)
  ultimately have "decodePayload (js_str ''5,49,50'') = js_str ''tel:12''"
    using s by simp
  with b s show ?thesis by (intro conjI)
qed

section \<open>The two decoders agree\<close>

text \<open>
  C9: for every payload of at least 2 bytes whose bytes after the first are all below
  0x80, the full URI of \<open>parseUriRecord\<close> on the bytes is the string that
  \<open>decodePayload\<close> returns on the same bytes printed in decimal and joined by commas.
\<close>

theorem parseUriRecord_agrees_with_decodePayload:
  assumes "2 \<le> length bytes"
    and "list_all (\<lambda>b. b < 0x80) (drop 1 bytes)"
  shows "map_option fullUri (fst (parseUriRecord bytes con)) =
         Some (decodePayload (codes_toString (map unat bytes)))"
proof -
  from assms(1) obtain b bs where bytes: "bytes = b # bs"
    by (cases bytes) auto
  have ascii: "list_all (\<lambda>b. b < 0x80) bs"
    using assms(2) bytes by simp
  have small: "list_all (\<lambda>n. n < 2 ^ 53) (map unat bytes)"
  proof -
    have "unat x < 2 ^ 53" for x :: byte
      using unat_byte_lt [of x] by simp
    then show ?thesis by (simp add: list_all_iff)
  qed
  have "decodePayload (codes_toString (map unat bytes)) =
      or_empty (map_of URI_PREFIXES (unat b)) @ map of_nat (map unat bs)"
    using decodePayload_codes [OF small] bytes by simp
  moreover have "map_option fullUri (fst (parseUriRecord bytes con)) =
      Some (or_empty (map_of URI_PREFIXES (unat b)) @ map (\<lambda>b. of_nat (unat b)) bs)"
    using parseUriRecord_result [OF assms(1), of con] bytes
    by (simp add: buffer_toString_utf8_ascii [OF ascii])
  ultimately show ?thesis by (simp add: comp_def)
qed

theorem parseUriRecord_agrees_with_decodePayload_witness:
  "2 \<le> length [0x04, 0x67, 0x6F :: byte] \<and>
   list_all (\<lambda>b. b < 0x80) (drop 1 [0x04, 0x67, 0x6F :: byte]) \<and>
   codes_toString (map unat [0x04, 0x67, 0x6F :: byte]) = js_str ''4,103,111'' \<and>
   map_option fullUri (fst (parseUriRecord [0x04, 0x67, 0x6F] [])) =
     Some (decodePayload (js_str ''4,103,111''))"
proof -
  let ?d = "[0x04, 0x67, 0x6F :: byte]"
  have l: "2 \<le> length ?d" by simp
  have a: "list_all (\<lambda>b. b < 0x80) (drop 1 ?d)" by simp
  have s: "codes_toString (map unat ?d) = js_str ''4,103,111''"
    by (simp add: codes_toString_def toString10.simps digit_unit_def js_str_def)
  have "map_option fullUri (fst (parseUriRecord ?d [])) =
      Some (decodePayload (codes_toString (map unat ?d)))"
    using l a by (rule parseUriRecord_agrees_with_decodePayload)
  then have "map_option fullUri (fst (parseUriRecord ?d [])) =
      Some (decodePayload (js_str ''4,103,111''))"
    by (simp only: s)
  with l a s show ?thesis by (intro conjI)
qed

end
